theory Spec2Isabelle
  imports Main
begin

section \<open>Data model\<close>

text \<open>
  The card table (model \<open>Card\<close> of the Prisma client, used by \<open>src/server.js\<close>).
  A nullable TEXT column is a \<open>string option\<close>, \<open>None\<close> being SQL NULL; the JSONB
  column \<open>socials\<close> holds an object from platform names to handles, kept as an
  association list; timestamps are milliseconds since the epoch.
\<close>

type_synonym time = nat

type_synonym socials_obj = "(string \<times> string) list"

record card =
  uid :: string
  name :: "string option"
  company :: "string option"
  title :: "string option"
  phone :: "string option"
  mobile :: "string option"
  email :: "string option"
  emailPublic :: "string option"
  website :: "string option"
  address :: "string option"
  socials :: "socials_obj option"
  imageUrl :: "string option"
  claimedAt :: "time option"
  claimedByEmail :: "string option"
  createdAt :: time
  updatedAt :: time

text \<open>The table is keyed by \<open>uid\<close> (primary key): a store is a partial map.\<close>

type_synonym store = "string \<rightharpoonup> card"

text \<open>
  The \<open>profile\<close> object of a request body, as the handlers read it: the ten
  properties they access. \<open>None\<close> is a property that is missing, \<open>undefined\<close> or
  \<open>null\<close> (the handlers apply \<open>?? null\<close> to each, which maps all three to
  \<open>null\<close>). Each property is taken at the type of the column it is written to: a
  string, or the object of \<open>socials\<close>. Properties the handlers never read (a
  submitted \<open>claimedAt\<close>, say) are collected in \<open>p_other\<close>. A string is a list of
  code units below 256.
\<close>

record profile_in =
  p_name :: "string option"
  p_company :: "string option"
  p_title :: "string option"
  p_phone :: "string option"
  p_mobile :: "string option"
  p_email :: "string option"
  p_website :: "string option"
  p_address :: "string option"
  p_socials :: "socials_obj option"
  p_imageUrl :: "string option"
  p_other :: "(string \<times> string) list"

text \<open>The body of \<open>POST /api/card/claim\<close>: \<open>{ uid, claimToken, profile, emailForLogin }\<close>.\<close>

record claim_body =
  b_uid :: "string option"
  b_claimToken :: "string option"
  b_profile :: "profile_in option"
  b_emailForLogin :: "string option"

text \<open>
  The decoded payload of a token: \<open>{ uid, purpose: 'claim' }\<close> for a claim token,
  \<open>{ uid }\<close> for an ownership token. \<open>jwt.verify(token, JWT_SECRET)\<close> and
  \<open>jwt.sign(payload, JWT_SECRET, options)\<close> belong to the jsonwebtoken library, so the
  handlers take them as parameters: a verifier returns \<open>None\<close> where \<open>jwt.verify\<close>
  throws, a signer takes the payload and the \<open>expiresIn\<close> option (in days).
\<close>

record jwt_payload =
  pl_uid :: "string option"
  pl_purpose :: "string option"

type_synonym verifier = "string \<Rightarrow> jwt_payload option"

type_synonym signer = "jwt_payload \<Rightarrow> nat option \<Rightarrow> string"

text \<open>The \<open>error\<close> strings of the JSON error replies, and their HTTP status.\<close>

datatype api_error =
  missing_params | invalid_token | token_expired_or_invalid | already_claimed
  | no_token | bad_token | forbidden | not_found

fun http_status :: "api_error \<Rightarrow> nat" where
  "http_status missing_params = 400"
| "http_status invalid_token = 400"
| "http_status token_expired_or_invalid = 401"
| "http_status already_claimed = 409"
| "http_status no_token = 401"
| "http_status bad_token = 401"
| "http_status forbidden = 403"
| "http_status not_found = 404"

text \<open>
  The failure names of the interface description, and the reply each one stands for:
  both rejections of a claim token are \<open>InvalidCredential\<close>, a missing bearer token is
  \<open>Unauthenticated\<close>, a bearer token that does not verify is \<open>InvalidCredential\<close>.
\<close>

datatype failure =
  MissingParams | InvalidCredential | AlreadyClaimed | Unauthenticated | Forbidden | NotFound

fun failure_of :: "api_error \<Rightarrow> failure" where
  "failure_of missing_params = MissingParams"
| "failure_of invalid_token = InvalidCredential"
| "failure_of token_expired_or_invalid = InvalidCredential"
| "failure_of already_claimed = AlreadyClaimed"
| "failure_of no_token = Unauthenticated"
| "failure_of bad_token = InvalidCredential"
| "failure_of forbidden = Forbidden"
| "failure_of not_found = NotFound"

section \<open>JavaScript values\<close>

text \<open>
  Truthiness of an optional string: \<open>undefined\<close>, \<open>null\<close> and the empty string are
  falsy, every other string is truthy.
\<close>

fun truthy :: "string option \<Rightarrow> bool" where
  "truthy None = False"
| "truthy (Some s) = (s \<noteq> [])"

text \<open>\<open>x || ''\<close> on an optional string; on a truthy one it is the string itself.\<close>

fun or_empty :: "string option \<Rightarrow> string" where
  "or_empty None = []"
| "or_empty (Some s) = s"

text \<open>The property \<open>f\<close> of an object that may be missing, as in \<open>profile?.f ?? null\<close>
  and in the destructuring of \<open>req.body || {}\<close>.\<close>

fun opt_prop :: "'a option \<Rightarrow> ('a \<Rightarrow> 'b option) \<Rightarrow> 'b option" where
  "opt_prop None f = None"
| "opt_prop (Some p) f = f p"

section \<open>The store operations used by the handlers\<close>

text \<open>
  The \<open>data\<close> argument of \<open>prisma.card.updateMany\<close> and \<open>prisma.card.update\<close>: the
  ten profile columns both handlers write, and the two claim columns that only the
  claim handler writes (\<open>None\<close> when the argument has no such keys).
\<close>

record card_data =
  d_name :: "string option"
  d_company :: "string option"
  d_title :: "string option"
  d_phone :: "string option"
  d_mobile :: "string option"
  d_email :: "string option"
  d_website :: "string option"
  d_address :: "string option"
  d_socials :: "socials_obj"
  d_imageUrl :: "string option"
  d_claim :: "(time \<times> string option) option"

text \<open>
  Writing a \<open>data\<close> argument into a row at time \<open>now\<close>: the listed columns are
  overwritten, \<open>updatedAt\<close> is refreshed by the client, every other column is kept.
\<close>

definition write_data :: "time \<Rightarrow> card_data \<Rightarrow> card \<Rightarrow> card" where
  "write_data now d c =
     (let c1 = c\<lparr> name := d_name d, company := d_company d, title := d_title d,
                  phone := d_phone d, mobile := d_mobile d, email := d_email d,
                  website := d_website d, address := d_address d,
                  socials := Some (d_socials d), imageUrl := d_imageUrl d,
                  updatedAt := now \<rparr>
      in case d_claim d of
           None \<Rightarrow> c1
         | Some (t, e) \<Rightarrow> c1\<lparr> claimedAt := Some t, claimedByEmail := e \<rparr>)"

text \<open>
  \<open>prisma.card.updateMany({ where: { uid, claimedAt: null }, data })\<close>: one conditional
  write of the database; it returns the new store and the number of rows written
  (\<open>uid\<close> is the primary key, so at most one).
\<close>

definition updateMany_unclaimed :: "time \<Rightarrow> store \<Rightarrow> string \<Rightarrow> card_data \<Rightarrow> store \<times> nat" where
  "updateMany_unclaimed now s u d =
     (case s u of
        None \<Rightarrow> (s, 0)
      | Some c \<Rightarrow>
          if claimedAt c = None then (s(u \<mapsto> write_data now d c), 1) else (s, 0))"

text \<open>
  \<open>prisma.card.update({ where: { uid }, data })\<close>: it throws (record to update not
  found) when no row has the key.
\<close>

datatype prisma_error = RecordNotFound

definition update_card :: "time \<Rightarrow> store \<Rightarrow> string \<Rightarrow> card_data \<Rightarrow> prisma_error + store" where
  "update_card now s u d =
     (case s u of
        None \<Rightarrow> Inl RecordNotFound
      | Some c \<Rightarrow> Inr (s(u \<mapsto> write_data now d c)))"

section \<open>\<open>POST /api/card/claim\<close>\<close>

text \<open>
  Lines 155 to 165: the parameter check and the token check. The result is the error
  reply, or \<open>None\<close> when the handler goes on to the write.
\<close>

definition claim_check :: "verifier \<Rightarrow> claim_body option \<Rightarrow> api_error option" where
  "claim_check V body =
     (let u = opt_prop body b_uid;
          tok = opt_prop body b_claimToken
      in if \<not> truthy u \<or> \<not> truthy tok then Some missing_params
         else (case V (or_empty tok) of
                 None \<Rightarrow> Some token_expired_or_invalid
               | Some payload \<Rightarrow>
                   if pl_purpose payload \<noteq> Some ''claim'' \<or> pl_uid payload \<noteq> u
                   then Some invalid_token else None))"

text \<open>Lines 170 to 183: the \<open>data\<close> argument built from the body at time \<open>now\<close>.\<close>

definition claim_data :: "time \<Rightarrow> claim_body option \<Rightarrow> card_data" where
  "claim_data now body =
     (let profile = opt_prop body b_profile;
          emailForLogin = opt_prop body b_emailForLogin
      in \<lparr> d_name = opt_prop profile p_name, d_company = opt_prop profile p_company,
           d_title = opt_prop profile p_title, d_phone = opt_prop profile p_phone,
           d_mobile = opt_prop profile p_mobile, d_email = opt_prop profile p_email,
           d_website = opt_prop profile p_website, d_address = opt_prop profile p_address,
           d_socials = (case opt_prop profile p_socials of None \<Rightarrow> [] | Some m \<Rightarrow> m),
           d_imageUrl = opt_prop profile p_imageUrl,
           d_claim = Some (now, emailForLogin) \<rparr>)"

text \<open>Lines 186 to 190: the reply after the write, from the number of rows written.\<close>

definition claim_reply :: "signer \<Rightarrow> string \<Rightarrow> nat \<Rightarrow> api_error + string \<times> string" where
  "claim_reply S u n =
     (if n = 0 then Inl already_claimed
      else Inr (u, S \<lparr> pl_uid = Some u, pl_purpose = None \<rparr> (Some 90)))"

text \<open>The handler: its reply and the store it leaves.\<close>

definition claim ::
  "verifier \<Rightarrow> signer \<Rightarrow> time \<Rightarrow> store \<Rightarrow> claim_body option
     \<Rightarrow> (api_error + string \<times> string) \<times> store" where
  "claim V S now s body =
     (case claim_check V body of
        Some e \<Rightarrow> (Inl e, s)
      | None \<Rightarrow>
          (let u = or_empty (opt_prop body b_uid);
               (s', n) = updateMany_unclaimed now s u (claim_data now body)
           in (claim_reply S u n, s')))"

section \<open>\<open>PUT /api/card/:uid\<close>\<close>

text \<open>
  The request: the \<open>Authorization\<close> header, the \<open>:uid\<close> route parameter and
  \<open>req.body?.profile\<close>.
\<close>

record edit_req =
  r_authorization :: "string option"
  r_uid :: string
  r_profile :: "profile_in option"

text \<open>
  The middleware \<open>requireAuth\<close> (lines 44 to 54): the error it replies with, or the
  payload it stores in \<open>req.user\<close> before calling \<open>next()\<close>.
\<close>

definition requireAuth :: "verifier \<Rightarrow> string option \<Rightarrow> api_error + jwt_payload" where
  "requireAuth V authorization =
     (let raw = or_empty authorization;
          token = (if take 7 raw = ''Bearer '' then Some (drop 7 raw) else None)
      in if \<not> truthy token then Inl no_token
         else (case V (or_empty token) of
                 None \<Rightarrow> Inl bad_token
               | Some payload \<Rightarrow> Inr payload))"

text \<open>Lines 256 to 270: the \<open>data\<close> argument, from \<open>p = req.body?.profile || {}\<close>.\<close>

definition edit_data :: "profile_in option \<Rightarrow> card_data" where
  "edit_data profile =
     \<lparr> d_name = opt_prop profile p_name, d_company = opt_prop profile p_company,
       d_title = opt_prop profile p_title, d_phone = opt_prop profile p_phone,
       d_mobile = opt_prop profile p_mobile, d_email = opt_prop profile p_email,
       d_website = opt_prop profile p_website, d_address = opt_prop profile p_address,
       d_socials = (case opt_prop profile p_socials of None \<Rightarrow> [] | Some m \<Rightarrow> m),
       d_imageUrl = opt_prop profile p_imageUrl,
       d_claim = None \<rparr>"

text \<open>
  The handler has no \<open>try\<close> around \<open>prisma.card.update\<close>: when the update throws,
  the exception leaves the handler and no reply is written by it.
\<close>

datatype edit_result = Failed api_error | ReplyOk | Uncaught prisma_error

definition editProfile :: "verifier \<Rightarrow> time \<Rightarrow> store \<Rightarrow> edit_req \<Rightarrow> edit_result \<times> store" where
  "editProfile V now s req =
     (case requireAuth V (r_authorization req) of
        Inl e \<Rightarrow> (Failed e, s)
      | Inr user \<Rightarrow>
          if pl_uid user \<noteq> Some (r_uid req) then (Failed forbidden, s)
          else (case update_card now s (r_uid req) (edit_data (r_profile req)) of
                  Inl err \<Rightarrow> (Uncaught err, s)
                | Inr s' \<Rightarrow> (ReplyOk, s')))"

section \<open>\<open>GET /api/card/:uid.vcf\<close>\<close>

text \<open>\<open>hasProfileData\<close> (lines 194 to 207), in the order of the source.\<close>

definition hasProfileData :: "card option \<Rightarrow> bool" where
  "hasProfileData c =
     (truthy (opt_prop c name) \<or> truthy (opt_prop c mobile) \<or> truthy (opt_prop c phone)
      \<or> truthy (opt_prop c emailPublic) \<or> truthy (opt_prop c email)
      \<or> truthy (opt_prop c company) \<or> truthy (opt_prop c title)
      \<or> truthy (opt_prop c website) \<or> truthy (opt_prop c address)
      \<or> truthy (opt_prop c imageUrl))"

text \<open>
  White space as \<open>String.prototype.trim\<close> and the class \<open>\s\<close> see it, for the code
  units below 256 that a \<open>char\<close> holds: tab, line feed, vertical tab, form feed,
  carriage return, space and the no-break space.
\<close>

definition is_space :: "char \<Rightarrow> bool" where
  "is_space c = (c \<in> {CHR 0x09, CHR 0x0A, CHR 0x0B, CHR 0x0C, CHR 0x0D, CHR 0x20, CHR 0xA0})"

definition trim :: "string \<Rightarrow> string" where
  "trim s = rev (dropWhile is_space (rev (dropWhile is_space s)))"

text \<open>
  \<open>s.split(/\s+/)\<close>: the text before the first white-space character is a part; when
  there is no white space left it is the last part, otherwise the whole run of white
  space is the separator and the splitting goes on behind it. A separator at either
  end leaves an empty part there, and the empty string splits into one empty part.
\<close>

function split_ws :: "string \<Rightarrow> string list" where
  "split_ws s =
     (let part = takeWhile (\<lambda>c. \<not> is_space c) s;
          rest = dropWhile (\<lambda>c. \<not> is_space c) s
      in if rest = [] then [part] else part # split_ws (dropWhile is_space rest))"
  by pat_completeness auto
termination
proof (relation "measure length")
  show "wf (measure length)" by simp
next
  fix s :: string and part rest :: string
  assume rest: "rest = dropWhile (\<lambda>c. \<not> is_space c) s" and ne: "rest \<noteq> []"
  from ne have "is_space (hd rest)"
    unfolding rest using hd_dropWhile [of "\<lambda>c. \<not> is_space c" s] by simp
  with ne have "length (dropWhile is_space rest) < length rest"
    by (cases rest) (simp_all add: less_Suc_eq_le length_dropWhile_le)
  moreover have "length rest \<le> length s"
    unfolding rest by (rule length_dropWhile_le)
  ultimately show "(dropWhile is_space rest, s) \<in> measure length" by simp
qed

text \<open>\<open>lines.join(sep)\<close>.\<close>

fun join :: "string \<Rightarrow> string list \<Rightarrow> string" where
  "join sep [] = []"
| "join sep [l] = l"
| "join sep (l # ls) = l @ sep @ join sep ls"

definition CRLF :: string where
  "CRLF = [CHR 0x0D, CHR 0x0A]"

text \<open>
  \<open>vcardFrom\<close> (lines 208 to 228). \<open>vcard_lines\<close> is the array after
  \<open>.filter(Boolean)\<close>, which drops the empty strings; \<open>vcardFrom\<close> joins it.
\<close>

definition vcard_lines :: "card \<Rightarrow> string list" where
  "vcard_lines c =
     (let parts = split_ws (trim (or_empty (name c)));
          first = (case parts of [] \<Rightarrow> [] | p # _ \<Rightarrow> p);
          lastn = (if length parts > 1 then last parts else []);
          mail = (if truthy (emailPublic c) then or_empty (emailPublic c)
                  else or_empty (email c))
      in filter (\<lambda>l. l \<noteq> [])
           [ ''BEGIN:VCARD'',
             ''VERSION:3.0'',
             ''N:'' @ lastn @ '';'' @ first @ '';;;'',
             ''FN:'' @ or_empty (name c),
             if truthy (company c) then ''ORG:'' @ or_empty (company c) else [],
             if truthy (title c) then ''TITLE:'' @ or_empty (title c) else [],
             if truthy (mobile c) then ''TEL;TYPE=CELL,VOICE:'' @ or_empty (mobile c) else [],
             if truthy (phone c) then ''TEL;TYPE=WORK,VOICE:'' @ or_empty (phone c) else [],
             if mail \<noteq> [] then ''EMAIL;TYPE=INTERNET:'' @ mail else [],
             if truthy (website c) then ''URL:'' @ or_empty (website c) else [],
             if truthy (address c) then ''ADR;TYPE=WORK:;;'' @ or_empty (address c) @ '';;;;'' else [],
             ''END:VCARD'' ])"

definition vcardFrom :: "card \<Rightarrow> string" where
  "vcardFrom c = join CRLF (vcard_lines c)"

text \<open>
  The handler (lines 230 to 249): 404, 204 with no body, or 200 with the file name of
  the \<open>Content-Disposition\<close> header and the contact text.
\<close>

datatype vcf_result = VcfNotFound | VcfNoContent | VcfFile string string

definition exportContactFile :: "store \<Rightarrow> string \<Rightarrow> vcf_result" where
  "exportContactFile s u =
     (case s u of
        None \<Rightarrow> VcfNotFound
      | Some c \<Rightarrow>
          if \<not> hasProfileData (Some c) then VcfNoContent
          else VcfFile (u @ ''.vcf'') (vcardFrom c))"

section \<open>The export script's renderer\<close>

text \<open>
  The export script of the repository builds the same contact text with
  \<open>buildVCard\<close>, which passes every field through \<open>vEscape\<close> and the joined text
  through \<open>foldVCard\<close>. \<open>vEscape\<close> is four global replacements in a row: the
  backslash is doubled, every line break (CR LF, LF or CR) becomes backslash-n, and a
  backslash is put before every comma and every semicolon.
\<close>

definition replace_char :: "char \<Rightarrow> string \<Rightarrow> string \<Rightarrow> string" where
  "replace_char c r s = concat (map (\<lambda>x. if x = c then r else [x]) s)"

fun replace_breaks :: "string \<Rightarrow> string \<Rightarrow> string" where
  "replace_breaks r [] = []"
| "replace_breaks r (c # cs) =
     (if c = CHR 0x0D then
        (case cs of
           [] \<Rightarrow> r
         | d # ds \<Rightarrow> if d = CHR 0x0A then r @ replace_breaks r ds else r @ replace_breaks r cs)
      else if c = CHR 0x0A then r @ replace_breaks r cs
      else c # replace_breaks r cs)"

definition vEscape :: "string \<Rightarrow> string" where
  "vEscape s =
     replace_char (CHR '';'') [CHR 0x5C, CHR '';'']
       (replace_char (CHR '','') [CHR 0x5C, CHR '','']
          (replace_breaks [CHR 0x5C, CHR ''n'']
             (replace_char (CHR 0x5C) [CHR 0x5C, CHR 0x5C] s)))"

text \<open>
  The function that \<open>foldVCard\<close> maps over the lines: a line of more than 70
  characters is cut into pieces of 70, each followed by CR LF and a space.
\<close>

function fold_line :: "string \<Rightarrow> string" where
  "fold_line rest =
     (if length rest > 70 then take 70 rest @ CRLF @ '' '' @ fold_line (drop 70 rest)
      else rest)"
  by pat_completeness auto
termination
  by (relation "measure length") simp_all

section \<open>Concurrent claim calls\<close>

text \<open>
  Between its \<open>await\<close> points a call of the claim handler runs alone; the only
  \<open>await\<close> is the conditional write, which the database executes as one statement.
  A call therefore advances by three steps: the checks of lines 155 to 165, the
  conditional write, and the reply of lines 186 to 190. A call that has replied
  stays as it is.
\<close>

datatype claim_call =
  Received "claim_body option"
  | Checked "claim_body option"
  | Wrote "claim_body option" nat
  | Replied "api_error + string \<times> string"

fun step_call ::
  "verifier \<Rightarrow> signer \<Rightarrow> time \<Rightarrow> store \<Rightarrow> claim_call \<Rightarrow> store \<times> claim_call" where
  "step_call V S t s (Received body) =
     (s, case claim_check V body of Some e \<Rightarrow> Replied (Inl e) | None \<Rightarrow> Checked body)"
| "step_call V S t s (Checked body) =
     (let (s', n) = updateMany_unclaimed t s (or_empty (opt_prop body b_uid)) (claim_data t body)
      in (s', Wrote body n))"
| "step_call V S t s (Wrote body n) =
     (s, Replied (claim_reply S (or_empty (opt_prop body b_uid)) n))"
| "step_call V S t s (Replied r) = (s, Replied r)"

text \<open>
  A configuration is the store and the calls in flight. A schedule names, step by
  step, the call that advances and the clock reading of that step; \<open>run\<close> executes
  a schedule. Every interleaving of the calls is the run of some schedule, and every
  state a concurrent reader can see is the store after a prefix of it.
\<close>

type_synonym config = "store \<times> claim_call list"

definition step :: "verifier \<Rightarrow> signer \<Rightarrow> nat \<times> time \<Rightarrow> config \<Rightarrow> config" where
  "step V S x cfg =
     (let (i, t) = x; (s, calls) = cfg
      in if i < length calls
         then (let (s', c') = step_call V S t s (calls ! i) in (s', calls[i := c']))
         else (s, calls))"

fun run :: "verifier \<Rightarrow> signer \<Rightarrow> (nat \<times> time) list \<Rightarrow> config \<Rightarrow> config" where
  "run V S [] cfg = cfg"
| "run V S (x # xs) cfg = run V S xs (step V S x cfg)"

fun is_replied :: "claim_call \<Rightarrow> bool" where
  "is_replied (Replied r) = True"
| "is_replied c = False"

section \<open>Vocabulary of the properties\<close>

text \<open>
  A claim token is valid for the identifier \<open>u\<close> when it is a non-empty string that
  verifies and decodes to the purpose \<open>claim\<close> and to \<open>u\<close>.
\<close>

definition valid_claim_token :: "verifier \<Rightarrow> string \<Rightarrow> string option \<Rightarrow> bool" where
  "valid_claim_token V u tok =
     (truthy tok \<and>
      (case V (or_empty tok) of
         None \<Rightarrow> False
       | Some payload \<Rightarrow> pl_purpose payload = Some ''claim'' \<and> pl_uid payload = Some u))"

text \<open>
  The nine text columns of the profile that both handlers write, and the values a
  submitted profile gives for them (\<open>None\<close> for a property that is left out, and for
  each of them when the profile itself is left out).
\<close>

definition text_fields :: "card \<Rightarrow> string option list" where
  "text_fields c =
     [name c, company c, title c, phone c, mobile c, email c, website c, address c, imageUrl c]"

definition submitted_texts :: "profile_in option \<Rightarrow> string option list" where
  "submitted_texts p =
     [opt_prop p p_name, opt_prop p p_company, opt_prop p p_title, opt_prop p p_phone,
      opt_prop p p_mobile, opt_prop p p_email, opt_prop p p_website, opt_prop p p_address,
      opt_prop p p_imageUrl]"

definition submitted_socials :: "profile_in option \<Rightarrow> socials_obj" where
  "submitted_socials p = (case opt_prop p p_socials of None \<Rightarrow> [] | Some m \<Rightarrow> m)"

text \<open>A field is populated when it is present and not the empty string.\<close>

definition populated :: "string option \<Rightarrow> bool" where
  "populated x = (\<exists>t. x = Some t \<and> t \<noteq> [])"

text \<open>The fields that \<open>hasProfileData\<close> looks at, as a list.\<close>

definition identity_fields :: "card \<Rightarrow> string option list" where
  "identity_fields c =
     [name c, mobile c, phone c, emailPublic c, email c, company c, title c, website c,
      address c, imageUrl c]"

text \<open>
  The white-space separated tokens of a text: the maximal runs of characters that
  are not white space, from left to right.
\<close>

function tokens :: "string \<Rightarrow> string list" where
  "tokens s =
     (case dropWhile is_space s of
        [] \<Rightarrow> []
      | c # cs \<Rightarrow> (c # takeWhile (\<lambda>x. \<not> is_space x) cs)
                  # tokens (dropWhile (\<lambda>x. \<not> is_space x) cs))"
  by pat_completeness auto
termination
proof (relation "measure length")
  show "wf (measure length)" by simp
next
  fix s :: string and c :: char and cs :: string
  assume "dropWhile is_space s = c # cs"
  then have "Suc (length cs) \<le> length s"
    using length_dropWhile_le [of is_space s] by simp
  moreover have "length (dropWhile (\<lambda>x. \<not> is_space x) cs) \<le> length cs"
    by (rule length_dropWhile_le)
  ultimately show "(dropWhile (\<lambda>x. \<not> is_space x) cs, s) \<in> measure length" by simp
qed

text \<open>
  The states a call with body \<open>b\<close> can be in while no call has written (\<open>pending\<close>),
  after another call has written (\<open>lost\<close>) and after it has written itself (\<open>won\<close>),
  and the invariant of the configurations reached from \<open>(s0, map Received bs)\<close>: either
  the store is still \<open>s0\<close> and every call is pending, or exactly one call \<open>w\<close> has
  written, the store is \<open>s0\<close> with the whole row of \<open>w\<close> at \<open>u\<close>, and every other
  call has lost.
\<close>

definition pending :: "claim_body option \<Rightarrow> claim_call \<Rightarrow> bool" where
  "pending b c = (c = Received b \<or> c = Checked b)"

definition lost :: "claim_body option \<Rightarrow> claim_call \<Rightarrow> bool" where
  "lost b c = (pending b c \<or> c = Wrote b 0 \<or> c = Replied (Inl already_claimed))"

definition won :: "signer \<Rightarrow> string \<Rightarrow> claim_body option \<Rightarrow> claim_call \<Rightarrow> bool" where
  "won S u b c = (c = Wrote b 1 \<or> c = Replied (claim_reply S u 1))"

definition claim_inv ::
  "signer \<Rightarrow> string \<Rightarrow> store \<Rightarrow> card \<Rightarrow> claim_body option list \<Rightarrow> config \<Rightarrow> bool" where
  "claim_inv S u s0 c0 bs cfg =
     (length (snd cfg) = length bs \<and>
      ((fst cfg = s0 \<and> (\<forall>i < length bs. pending (bs ! i) (snd cfg ! i)))
       \<or> (\<exists>w < length bs. \<exists>t.
              fst cfg = s0(u \<mapsto> write_data t (claim_data t (bs ! w)) c0)
              \<and> won S u (bs ! w) (snd cfg ! w)
              \<and> (\<forall>j < length bs. j \<noteq> w \<longrightarrow> lost (bs ! j) (snd cfg ! j)))))"

text \<open>The number of steps a call still has to take, at most.\<close>

fun steps_left :: "claim_call \<Rightarrow> nat" where
  "steps_left (Received b) = 3"
| "steps_left (Checked b) = 2"
| "steps_left (Wrote b n) = 1"
| "steps_left (Replied r) = 0"

text \<open>A text is trimmed when it is not empty and neither starts nor ends with white space.\<close>

definition trimmed :: "string \<Rightarrow> bool" where
  "trimmed t = (t \<noteq> [] \<and> \<not> is_space (hd t) \<and> \<not> is_space (last t))"

text \<open>
  A codec without signatures, for running the handlers on concrete requests:
  \<open>claim:u\<close> is the claim token of \<open>u\<close>, \<open>owner:u\<close> its ownership token, and nothing
  else verifies.
\<close>

definition plain_verify :: verifier where
  "plain_verify tok =
     (if take 6 tok = ''claim:'' then Some \<lparr> pl_uid = Some (drop 6 tok), pl_purpose = Some ''claim'' \<rparr>
      else if take 6 tok = ''owner:'' then Some \<lparr> pl_uid = Some (drop 6 tok), pl_purpose = None \<rparr>
      else None)"

definition plain_sign :: signer where
  "plain_sign payload expiresIn =
     (case pl_purpose payload of None \<Rightarrow> ''owner:'' | Some _ \<Rightarrow> ''claim:'')
     @ or_empty (pl_uid payload)"

text \<open>A blank card, as \<open>prisma.card.create({ data: { uid } })\<close> leaves it.\<close>

definition blank_card :: "string \<Rightarrow> time \<Rightarrow> card" where
  "blank_card u t =
     \<lparr> uid = u, name = None, company = None, title = None, phone = None, mobile = None,
       email = None, emailPublic = None, website = None, address = None, socials = None,
       imageUrl = None, claimedAt = None, claimedByEmail = None, createdAt = t,
       updatedAt = t \<rparr>"

definition empty_profile :: profile_in where
  "empty_profile =
     \<lparr> p_name = None, p_company = None, p_title = None, p_phone = None, p_mobile = None,
       p_email = None, p_website = None, p_address = None, p_socials = None,
       p_imageUrl = None, p_other = [] \<rparr>"

section \<open>Concrete cards and requests\<close>

definition claim_body_of :: "string \<Rightarrow> string \<Rightarrow> profile_in option \<Rightarrow> claim_body option" where
  "claim_body_of u tok p =
     Some \<lparr> b_uid = Some u, b_claimToken = Some tok, b_profile = p, b_emailForLogin = None \<rparr>"

definition ada_profile :: profile_in where
  "ada_profile =
     empty_profile \<lparr> p_name := Some ''Ada Lovelace'', p_company := Some ''Analytical Engines'' \<rparr>"

definition claimed_cardA :: card where
  "claimed_cardA =
     (blank_card ''cardA'' 1) \<lparr> name := Some ''Ada'', emailPublic := Some ''pub@example.com'',
                               claimedAt := Some 3, claimedByEmail := Some ''ada@example.com'' \<rparr>"

definition prefilled_cardA :: card where
  "prefilled_cardA = (blank_card ''cardA'' 1) \<lparr> emailPublic := Some ''pub@example.com'' \<rparr>"

definition grace_profile :: profile_in where
  "grace_profile = empty_profile \<lparr> p_name := Some ''Grace Hopper'' \<rparr>"

text \<open>
  Two claim calls on card A, and a schedule in which the second call writes first (at
  time 7).
\<close>

definition two_claims :: "claim_body option list" where
  "two_claims =
     [claim_body_of ''cardA'' ''claim:cardA'' (Some ada_profile),
      claim_body_of ''cardA'' ''claim:cardA'' (Some grace_profile)]"

definition race_schedule :: "(nat \<times> time) list" where
  "race_schedule = [(0, 5), (1, 6), (1, 7), (0, 8), (0, 9), (1, 10)]"

text \<open>A card whose only populated field is the picture.\<close>

definition image_only_card :: card where
  "image_only_card =
     (blank_card ''cardA'' 1) \<lparr> imageUrl := Some ''https://example.com/ada.png'' \<rparr>"

text \<open>A submitted profile with an \<open>emailPublic\<close> property, and the race with it.\<close>

definition grace_profile_pub :: profile_in where
  "grace_profile_pub = grace_profile \<lparr> p_other := [(''emailPublic'', ''grace@example.com'')] \<rparr>"

definition two_claims_pub :: "claim_body option list" where
  "two_claims_pub =
     [claim_body_of ''cardA'' ''claim:cardA'' (Some ada_profile),
      claim_body_of ''cardA'' ''claim:cardA'' (Some grace_profile_pub)]"

definition card_named :: "string \<Rightarrow> card" where
  "card_named n = (blank_card ''cardA'' 1) \<lparr> name := Some n \<rparr>"

text \<open>A card whose company holds a semicolon and a comma, with a long web address.\<close>

definition smith_card :: card where
  "smith_card =
     (blank_card ''cardA'' 1)
       \<lparr> name := Some ''Ada'', company := Some ''Smith; Sons, Ltd'',
         website := Some ''https://example.com/a/long/path/that/makes/the/line/longer/than/seventy/characters'' \<rparr>"

text \<open>
  The recursion equations of \<open>split_ws\<close>, \<open>tokens\<close> and \<open>fold_line\<close> are
  unfolded by hand in the proofs below.
\<close>

declare split_ws.simps [simp del] tokens.simps [simp del] fold_line.simps [simp del]

section \<open>Facts about the store operations\<close>

lemma updateMany_claimed:
  "s u = Some c \<Longrightarrow> claimedAt c \<noteq> None \<Longrightarrow> updateMany_unclaimed now s u d = (s, 0)"
  by (simp add: updateMany_unclaimed_def)

lemma updateMany_unclaimed_card:
  "s u = Some c \<Longrightarrow> claimedAt c = None \<Longrightarrow>
     updateMany_unclaimed now s u d = (s(u \<mapsto> write_data now d c), 1)"
  by (simp add: updateMany_unclaimed_def)


lemma write_data_frame:
  "uid (write_data now d c) = uid c"
  "createdAt (write_data now d c) = createdAt c"
  "emailPublic (write_data now d c) = emailPublic c"
  "updatedAt (write_data now d c) = now"
  by (simp_all add: write_data_def Let_def split: option.splits prod.splits)

lemma write_data_claim_fields:
  "d_claim d = None \<Longrightarrow> claimedAt (write_data now d c) = claimedAt c"
  "d_claim d = None \<Longrightarrow> claimedByEmail (write_data now d c) = claimedByEmail c"
  "d_claim d = Some (t, e) \<Longrightarrow> claimedAt (write_data now d c) = Some t"
  "d_claim d = Some (t, e) \<Longrightarrow> claimedByEmail (write_data now d c) = e"
  by (simp_all add: write_data_def Let_def)

lemma write_data_profile:
  "text_fields (write_data now d c) =
     [d_name d, d_company d, d_title d, d_phone d, d_mobile d, d_email d, d_website d,
      d_address d, d_imageUrl d]"
  "socials (write_data now d c) = Some (d_socials d)"
  by (simp_all add: write_data_def text_fields_def Let_def split: option.splits prod.splits)


lemma claim_data_fields:
  "[d_name (claim_data t b), d_company (claim_data t b), d_title (claim_data t b),
    d_phone (claim_data t b), d_mobile (claim_data t b), d_email (claim_data t b),
    d_website (claim_data t b), d_address (claim_data t b), d_imageUrl (claim_data t b)]
   = submitted_texts (opt_prop b b_profile)"
  "d_socials (claim_data t b) = submitted_socials (opt_prop b b_profile)"
  "d_claim (claim_data t b) = Some (t, opt_prop b b_emailForLogin)"
  by (simp_all add: claim_data_def submitted_texts_def submitted_socials_def Let_def)

section \<open>Properties of the claim handler\<close>

text \<open>The checks pass exactly on a supplied identifier with a token valid for it.\<close>

lemma claim_check_None_iff:
  "claim_check V body = None \<longleftrightarrow>
     (\<exists>u. opt_prop body b_uid = Some u \<and> u \<noteq> []
          \<and> valid_claim_token V u (opt_prop body b_claimToken))"
  by (cases "opt_prop body b_uid"; cases "opt_prop body b_claimToken")
     (auto simp: claim_check_def valid_claim_token_def split: option.splits)

lemma claim_check_errors:
  "claim_check V body = Some e \<Longrightarrow>
     e = missing_params \<or> e = token_expired_or_invalid \<or> e = invalid_token"
  by (auto simp: claim_check_def Let_def split: if_splits option.splits)

lemma claim_check_rejected:
  "claim_check V body = Some e \<Longrightarrow> claim V S now s body = (Inl e, s)"
  by (simp add: claim_def)

lemma claim_passed:
  assumes "claim_check V body = None" and "opt_prop body b_uid = Some u"
  shows "claim V S now s body =
           (claim_reply S u (snd (updateMany_unclaimed now s u (claim_data now body))),
            fst (updateMany_unclaimed now s u (claim_data now body)))"
  using assms by (simp add: claim_def split: prod.splits)



text \<open>
  C2, as the handler has it. A claim call on an identifier whose card is already
  claimed never changes the store and always fails, and the reply is fixed by the
  identifier and the token alone: \<open>missing_params\<close> (the failure \<open>MissingParams\<close>)
  when the identifier or the token is missing or empty; otherwise
  \<open>token_expired_or_invalid\<close> when the token does not verify and \<open>invalid_token\<close>
  when it verifies but is not a claim token of this identifier (both the failure
  \<open>InvalidCredential\<close>); and \<open>already_claimed\<close> (the failure \<open>AlreadyClaimed\<close>)
  when it is a valid claim token for the identifier. The token is checked before the
  store is touched.
\<close>

theorem claim_on_claimed_card:
  assumes "s u = Some c" and "claimedAt c \<noteq> None" and "opt_prop body b_uid = Some u"
  shows "snd (claim V S now s body) = s
         \<and> fst (claim V S now s body) =
             Inl (if u = [] \<or> \<not> truthy (opt_prop body b_claimToken) then missing_params
                  else case V (or_empty (opt_prop body b_claimToken)) of
                         None \<Rightarrow> token_expired_or_invalid
                       | Some payload \<Rightarrow>
                           if pl_purpose payload = Some ''claim'' \<and> pl_uid payload = Some u
                           then already_claimed else invalid_token)
         \<and> (\<exists>e. fst (claim V S now s body) = Inl e
                \<and> failure_of e =
                    (if u = [] \<or> \<not> truthy (opt_prop body b_claimToken) then MissingParams
                     else if valid_claim_token V u (opt_prop body b_claimToken)
                     then AlreadyClaimed else InvalidCredential))"
proof (cases "claim_check V body")
  case None
  then have v: "u \<noteq> []" "valid_claim_token V u (opt_prop body b_claimToken)"
    using assms(3) by (auto simp: claim_check_None_iff)
  have "claim V S now s body = (Inl already_claimed, s)"
    using None assms by (simp add: claim_passed updateMany_claimed claim_reply_def)
  then show ?thesis
    using v by (auto simp: valid_claim_token_def split: option.splits)
next
  case (Some e)
  have c: "claim V S now s body = (Inl e, s)"
    using Some by (rule claim_check_rejected)
  have nv: "\<not> (u \<noteq> [] \<and> valid_claim_token V u (opt_prop body b_claimToken))"
    using Some assms(3) claim_check_None_iff [of V body] by auto
  have e: "e = (if u = [] \<or> \<not> truthy (opt_prop body b_claimToken) then missing_params
                else case V (or_empty (opt_prop body b_claimToken)) of
                       None \<Rightarrow> token_expired_or_invalid
                     | Some payload \<Rightarrow>
                         if pl_purpose payload = Some ''claim'' \<and> pl_uid payload = Some u
                         then already_claimed else invalid_token)"
    using Some assms(3) nv
    by (auto simp: claim_check_def valid_claim_token_def Let_def split: option.splits if_splits)
  show ?thesis
    unfolding c fst_conv snd_conv using e nv
    by (auto simp: valid_claim_token_def split: option.splits if_splits)
qed

text \<open>
  Four claims of the claimed card A: with its claim token, with a token that does not
  verify, with the claim token of card B, and with an empty token.
\<close>

theorem claim_on_claimed_card_witness:
  "claim plain_verify plain_sign 7 [''cardA'' \<mapsto> claimed_cardA]
       (claim_body_of ''cardA'' ''claim:cardA'' (Some ada_profile))
     = (Inl already_claimed, [''cardA'' \<mapsto> claimed_cardA])
   \<and> claim plain_verify plain_sign 7 [''cardA'' \<mapsto> claimed_cardA]
       (claim_body_of ''cardA'' ''garbage'' (Some ada_profile))
     = (Inl token_expired_or_invalid, [''cardA'' \<mapsto> claimed_cardA])
   \<and> claim plain_verify plain_sign 7 [''cardA'' \<mapsto> claimed_cardA]
       (claim_body_of ''cardA'' ''claim:cardB'' (Some ada_profile))
     = (Inl invalid_token, [''cardA'' \<mapsto> claimed_cardA])
   \<and> claim plain_verify plain_sign 7 [''cardA'' \<mapsto> claimed_cardA]
       (claim_body_of ''cardA'' [] (Some ada_profile))
     = (Inl missing_params, [''cardA'' \<mapsto> claimed_cardA])"
proof -
  let ?st = "[''cardA'' \<mapsto> claimed_cardA]"
  have card: "?st ''cardA'' = Some claimed_cardA" by simp
  have cl: "claimedAt claimed_cardA \<noteq> None" by (simp add: claimed_cardA_def)
  have id: "opt_prop (claim_body_of ''cardA'' tok (Some ada_profile)) b_uid = Some ''cardA''"
    for tok by (simp add: claim_body_of_def)
  note t = claim_on_claimed_card [of ?st "''cardA''" claimed_cardA _ plain_verify plain_sign 7,
      OF card cl]
  show ?thesis
    using t [OF id [of "''claim:cardA''"]] t [OF id [of "''garbage''"]]
      t [OF id [of "''claim:cardB''"]] t [OF id [of "[]"]]
    by (simp add: prod_eq_iff claim_body_of_def plain_verify_def)
qed

text \<open>
  C2 as stated fails for a token that does not verify: on the claimed card the call
  is answered \<open>token_expired_or_invalid\<close>, which is not \<open>AlreadyClaimed\<close>.
\<close>

theorem claim_on_claimed_card_bad_token:
  "fst (claim plain_verify plain_sign 7 [''cardA'' \<mapsto> claimed_cardA]
          (claim_body_of ''cardA'' ''garbage'' (Some ada_profile)))
     = Inl token_expired_or_invalid
   \<and> failure_of token_expired_or_invalid \<noteq> AlreadyClaimed
   \<and> claimedAt claimed_cardA \<noteq> None"
  by (simp add: claim_def claim_check_def claim_body_of_def plain_verify_def claimed_cardA_def)

text \<open>
  C3. A claim call whose identifier and token are supplied, and whose token verifies
  but decodes to a purpose other than \<open>claim\<close> or to another identifier than the one
  of the request, is answered with \<open>invalid_token\<close>, which is the failure
  \<open>InvalidCredential\<close>, and leaves the store as it was. (An identifier or token that
  is the empty string counts as not supplied: line 156.)
\<close>

theorem claim_foreign_token_rejected:
  assumes "b_uid b = Some u" and "u \<noteq> []"
    and "b_claimToken b = Some tok" and "tok \<noteq> []"
    and "V tok = Some payload"
    and "pl_purpose payload \<noteq> Some ''claim'' \<or> pl_uid payload \<noteq> Some u"
  shows "claim V S now s (Some b) = (Inl invalid_token, s)
         \<and> failure_of invalid_token = InvalidCredential"
proof -
  have "claim_check V (Some b) = Some invalid_token"
    using assms by (simp add: claim_check_def)
  then show ?thesis by (simp add: claim_check_rejected)
qed

text \<open>The claim token of card A submitted against card B.\<close>

theorem claim_foreign_token_rejected_witness:
  "claim plain_verify plain_sign 7 [''cardB'' \<mapsto> blank_card ''cardB'' 1]
     (Some \<lparr> b_uid = Some ''cardB'', b_claimToken = Some ''claim:cardA'',
             b_profile = Some empty_profile, b_emailForLogin = None \<rparr>)
   = (Inl invalid_token, [''cardB'' \<mapsto> blank_card ''cardB'' 1])
   \<and> failure_of invalid_token = InvalidCredential"
  using claim_foreign_token_rejected [of
     "\<lparr> b_uid = Some ''cardB'', b_claimToken = Some ''claim:cardA'',
             b_profile = Some empty_profile, b_emailForLogin = None \<rparr>"
     "''cardB''" "''claim:cardA''" plain_verify
     "\<lparr> pl_uid = Some ''cardA'', pl_purpose = Some ''claim'' \<rparr>"
     plain_sign 7 "[''cardB'' \<mapsto> blank_card ''cardB'' 1]"]
  by (simp add: plain_verify_def)

section \<open>Properties of the edit handler\<close>

text \<open>
  C4. An edit call whose bearer token verifies but decodes to another identifier than
  the one in the route is answered with \<open>forbidden\<close>, which is the failure
  \<open>Forbidden\<close>, and the store is not written.
\<close>

theorem edit_foreign_token_forbidden:
  assumes "r_authorization req = Some (''Bearer '' @ tok)" and "tok \<noteq> []"
    and "V tok = Some user" and "pl_uid user \<noteq> Some (r_uid req)"
  shows "editProfile V now s req = (Failed forbidden, s)
         \<and> failure_of forbidden = Forbidden"
  using assms by (simp add: editProfile_def requireAuth_def)

text \<open>The ownership token of card A used to edit card B.\<close>

theorem edit_foreign_token_forbidden_witness:
  "editProfile plain_verify 9 [''cardB'' \<mapsto> blank_card ''cardB'' 1]
     \<lparr> r_authorization = Some ''Bearer owner:cardA'', r_uid = ''cardB'',
       r_profile = Some empty_profile \<rparr>
   = (Failed forbidden, [''cardB'' \<mapsto> blank_card ''cardB'' 1])
   \<and> failure_of forbidden = Forbidden"
  using edit_foreign_token_forbidden [of
     "\<lparr> r_authorization = Some ''Bearer owner:cardA'', r_uid = ''cardB'',
       r_profile = Some empty_profile \<rparr>" "''owner:cardA''" plain_verify
     "\<lparr> pl_uid = Some ''cardA'', pl_purpose = None \<rparr>" 9
     "[''cardB'' \<mapsto> blank_card ''cardB'' 1]"]
  by (simp add: plain_verify_def)

text \<open>
  An edit call that passes both checks on an identifier with no row: the update
  throws, nothing catches it, and the handler writes no reply.
\<close>

lemma editProfile_missing_card:
  assumes "r_authorization req = Some (''Bearer '' @ tok)" and "tok \<noteq> []"
    and "V tok = Some user" and "pl_uid user = Some (r_uid req)"
    and "s (r_uid req) = None"
  shows "editProfile V now s req = (Uncaught RecordNotFound, s)"
  using assms by (simp add: editProfile_def requireAuth_def update_card_def)

text \<open>
  C5. An edit call with a valid ownership token for \<open>cardA\<close>, on a store that has no
  such card, should fail with \<open>NotFound\<close>. The handler replies nothing of the kind:
  the exception of the update escapes it.
\<close>

theorem edit_missing_card_uncaught:
  "editProfile plain_verify 9 Map.empty
     \<lparr> r_authorization = Some ''Bearer owner:cardA'', r_uid = ''cardA'',
       r_profile = Some empty_profile \<rparr>
   = (Uncaught RecordNotFound, Map.empty)"
  by (simp add: editProfile_def requireAuth_def plain_verify_def update_card_def)





section \<open>What claim and edit store\<close>




section \<open>Properties of the contact file\<close>

lemma truthy_populated: "truthy x = populated x"
  by (cases x) (simp_all add: populated_def)

text \<open>
  For an existing card the export is never the 404 reply, and it is the no-content
  reply exactly when none of the ten fields of \<open>hasProfileData\<close> is populated.
\<close>

lemma exportContactFile_no_content:
  assumes "s u = Some c"
  shows "(exportContactFile s u = VcfNoContent
            \<longleftrightarrow> (\<forall>f \<in> set (identity_fields c). \<not> populated f))
         \<and> (exportContactFile s u = VcfNoContent
              \<or> exportContactFile s u = VcfFile (u @ ''.vcf'') (vcardFrom c))"
  using assms
  by (auto simp: exportContactFile_def hasProfileData_def identity_fields_def truthy_populated)

lemma or_empty_falsy: "\<not> truthy x \<Longrightarrow> or_empty x = []"
  by (cases x) simp_all

text \<open>
  \<open>imageUrl\<close> is one of the fields of \<open>hasProfileData\<close>, but \<open>vcardFrom\<close> has no
  line for it: a card with a picture and none of the rendered fields passes the test
  and is rendered as the blank card is.
\<close>

lemma vcard_lines_nothing_rendered:
  assumes "\<not> truthy (name c)" and "\<not> truthy (company c)" and "\<not> truthy (title c)"
    and "\<not> truthy (mobile c)" and "\<not> truthy (phone c)" and "\<not> truthy (emailPublic c)"
    and "\<not> truthy (email c)" and "\<not> truthy (website c)" and "\<not> truthy (address c)"
  shows "vcard_lines c = [''BEGIN:VCARD'', ''VERSION:3.0'', ''N:;;;;'', ''FN:'', ''END:VCARD'']"
proof -
  have "split_ws (trim []) = [[]]"
    by (subst split_ws.simps) (simp add: trim_def)
  then show ?thesis
    using assms by (simp add: vcard_lines_def or_empty_falsy)
qed

lemma export_picture_only:
  assumes "s u = Some c" and "truthy (imageUrl c)"
    and "\<not> truthy (name c)" and "\<not> truthy (company c)" and "\<not> truthy (title c)"
    and "\<not> truthy (mobile c)" and "\<not> truthy (phone c)" and "\<not> truthy (emailPublic c)"
    and "\<not> truthy (email c)" and "\<not> truthy (website c)" and "\<not> truthy (address c)"
  shows "exportContactFile s u
           = VcfFile (u @ ''.vcf'')
               (join CRLF [''BEGIN:VCARD'', ''VERSION:3.0'', ''N:;;;;'', ''FN:'', ''END:VCARD''])"
  using assms(1,2) vcard_lines_nothing_rendered [OF assms(3-11)]
  by (simp add: exportContactFile_def hasProfileData_def vcardFrom_def)

text \<open>
  C7. The export should be the no-content reply exactly when no field with
  identity-relevant information is populated, and never a document of boilerplate
  lines only. For the card whose only populated field is \<open>imageUrl\<close> the handler
  replies 200 with the file \<open>cardA.vcf\<close>, and its text is the render of the blank
  card: header, an empty name line, an empty formatted-name line and footer. The
  blank card itself gets the no-content reply.
\<close>

theorem export_image_only_blank:
  "exportContactFile [''cardA'' \<mapsto> image_only_card] ''cardA''
     = VcfFile ''cardA.vcf''
         (join CRLF [''BEGIN:VCARD'', ''VERSION:3.0'', ''N:;;;;'', ''FN:'', ''END:VCARD''])
   \<and> vcardFrom image_only_card = vcardFrom (blank_card ''cardA'' 1)
   \<and> exportContactFile [''cardA'' \<mapsto> blank_card ''cardA'' 1] ''cardA'' = VcfNoContent"
  by code_simp

section \<open>The name line\<close>

lemma tokens_spaces:
  assumes "\<forall>c \<in> set w. is_space c"
  shows "tokens w = []"
proof -
  have h: "dropWhile is_space w = []"
    using assms by simp
  show ?thesis by (subst tokens.simps) (simp only: h list.case)
qed

lemma tokens_dropWhile: "tokens (dropWhile is_space s) = tokens s"
  by (subst tokens.simps, subst (2) tokens.simps) simp

lemma tokens_Cons_nonspace:
  "\<not> is_space c \<Longrightarrow>
     tokens (c # cs) = (c # takeWhile (\<lambda>x. \<not> is_space x) cs)
                        # tokens (dropWhile (\<lambda>x. \<not> is_space x) cs)"
  by (subst tokens.simps) simp

lemma tokens_append_spaces:
  "\<forall>c \<in> set w. is_space c \<Longrightarrow> tokens (s @ w) = tokens s"
proof (induction s rule: tokens.induct)
  case (1 s)
  show ?case
  proof (cases "dropWhile is_space s")
    case Nil
    then have "\<forall>c \<in> set (s @ w). is_space c"
      using "1.prems" by auto
    then have "tokens (s @ w) = []" by (rule tokens_spaces)
    moreover have "tokens s = []"
      using Nil by (intro tokens_spaces) simp
    ultimately show ?thesis by simp
  next
    case (Cons c cs)
    then have c: "\<not> is_space c"
      using hd_dropWhile [of is_space s] by simp
    obtain x where x: "x \<in> set s" "\<not> is_space x"
      using Cons dropWhile_eq_Nil_conv [of is_space s] by auto
    have dw: "dropWhile is_space (s @ w) = c # cs @ w"
      using Cons x dropWhile_append1 [of x s is_space w] by simp
    have tw: "takeWhile (\<lambda>x. \<not> is_space x) w = []"
      using "1.prems" by (cases w) simp_all
    have dww: "dropWhile (\<lambda>x. \<not> is_space x) w = w"
      using "1.prems" by (cases w) simp_all
    have t1: "takeWhile (\<lambda>x. \<not> is_space x) (cs @ w) = takeWhile (\<lambda>x. \<not> is_space x) cs"
    proof (cases "\<forall>x \<in> set cs. \<not> is_space x")
      case True
      then have tc: "takeWhile (\<lambda>x. \<not> is_space x) cs = cs" by simp
      show ?thesis using True tw by (simp add: takeWhile_append tc)
    next
      case False
      then show ?thesis by (auto simp: takeWhile_append)
    qed
    have t2: "tokens (dropWhile (\<lambda>x. \<not> is_space x) (cs @ w))
                = tokens (dropWhile (\<lambda>x. \<not> is_space x) cs)"
    proof (cases "\<forall>x \<in> set cs. \<not> is_space x")
      case True
      then have a: "dropWhile (\<lambda>x. \<not> is_space x) (cs @ w) = w"
        and b: "dropWhile (\<lambda>x. \<not> is_space x) cs = []"
        using dww by (simp_all add: dropWhile_append)
      have "tokens w = []" using "1.prems" by (rule tokens_spaces)
      moreover have "tokens [] = []" by (rule tokens_spaces) simp
      ultimately show ?thesis unfolding a b by simp
    next
      case False
      then have "dropWhile (\<lambda>x. \<not> is_space x) (cs @ w)
                   = dropWhile (\<lambda>x. \<not> is_space x) cs @ w"
        by (auto simp: dropWhile_append)
      then show ?thesis using "1.IH" [OF Cons "1.prems"] by simp
    qed
    have "tokens (s @ w) = tokens (c # cs @ w)"
      using tokens_dropWhile [of "s @ w"] dw by simp
    also have "\<dots> = (c # takeWhile (\<lambda>x. \<not> is_space x) cs)
                        # tokens (dropWhile (\<lambda>x. \<not> is_space x) cs)"
      using c t1 t2 by (simp add: tokens_Cons_nonspace)
    also have "\<dots> = tokens (c # cs)"
      using c by (simp add: tokens_Cons_nonspace)
    also have "\<dots> = tokens s"
      using tokens_dropWhile [of s] Cons by simp
    finally show ?thesis .
  qed
qed

lemma tokens_trim: "tokens (trim s) = tokens s"
proof -
  let ?t = "dropWhile is_space s"
  have "?t = trim s @ rev (takeWhile is_space (rev ?t))"
    unfolding trim_def
    by (simp only: rev_append [symmetric] takeWhile_dropWhile_id rev_rev_ident)
  moreover have "\<forall>c \<in> set (rev (takeWhile is_space (rev ?t))). is_space c"
    by (auto dest: set_takeWhileD)
  ultimately have "tokens ?t = tokens (trim s)"
    using tokens_append_spaces by metis
  then show ?thesis by (simp add: tokens_dropWhile)
qed


lemma split_ws_no_space:
  assumes "\<forall>c \<in> set t. \<not> is_space c"
  shows "split_ws t = [t]"
proof -
  have a: "takeWhile (\<lambda>c. \<not> is_space c) t = t"
    and b: "dropWhile (\<lambda>c. \<not> is_space c) t = []"
    using assms by simp_all
  show ?thesis by (subst split_ws.simps) (simp add: a b Let_def)
qed

lemma split_ws_with_space:
  assumes "dropWhile (\<lambda>c. \<not> is_space c) t \<noteq> []"
  shows "split_ws t = takeWhile (\<lambda>c. \<not> is_space c) t
                       # split_ws (dropWhile is_space (dropWhile (\<lambda>c. \<not> is_space c) t))"
  by (subst split_ws.simps) (simp only: Let_def assms if_False)

lemma split_ws_trimmed: "trimmed t \<Longrightarrow> split_ws t = tokens t"
proof (induction t rule: length_induct)
  case (1 t)
  from "1.prems" obtain c cs where t: "t = c # cs" and c: "\<not> is_space c"
    and l: "\<not> is_space (last t)"
    by (cases t) (auto simp: trimmed_def)
  let ?rest = "dropWhile (\<lambda>x. \<not> is_space x) cs"
  have tok: "tokens t = (c # takeWhile (\<lambda>x. \<not> is_space x) cs) # tokens ?rest"
    using c by (simp add: t tokens_Cons_nonspace)
  have tw: "takeWhile (\<lambda>x. \<not> is_space x) t = c # takeWhile (\<lambda>x. \<not> is_space x) cs"
    and dw: "dropWhile (\<lambda>x. \<not> is_space x) t = ?rest"
    using c by (simp_all add: t)
  show ?case
  proof (cases "?rest = []")
    case True
    then have "\<forall>x \<in> set t. \<not> is_space x" using c by (simp add: t)
    then have sp: "split_ws t = [t]" by (rule split_ws_no_space)
    have tc: "takeWhile (\<lambda>x. \<not> is_space x) cs = cs" using True by simp
    have "tokens [] = []" by (rule tokens_spaces) simp
    then show ?thesis unfolding tok True sp tc by (simp add: t)
  next
    case False
    let ?r = "dropWhile is_space ?rest"
    have "dropWhile (\<lambda>x. \<not> is_space x) t \<noteq> []"
      unfolding dw by (rule False)
    from split_ws_with_space [OF this]
    have sp: "split_ws t = (c # takeWhile (\<lambda>x. \<not> is_space x) cs) # split_ws ?r"
      unfolding tw dw .
    have cne: "cs \<noteq> []" using False by auto
    have "last (takeWhile (\<lambda>x. \<not> is_space x) cs @ ?rest) = last ?rest"
      using False by (rule last_appendR)
    then have "last cs = last ?rest"
      by (simp only: takeWhile_dropWhile_id)
    then have lr: "\<not> is_space (last ?rest)"
      using l cne by (simp add: t)
    have rne: "?r \<noteq> []"
    proof
      assume "?r = []"
      then have "\<forall>x \<in> set ?rest. is_space x"
        by (simp only: dropWhile_eq_Nil_conv)
      moreover have "last ?rest \<in> set ?rest" using False by (rule last_in_set)
      ultimately have "is_space (last ?rest)" by (rule bspec)
      with lr show False by contradiction
    qed
    have "last (takeWhile is_space ?rest @ ?r) = last ?r"
      using rne by (rule last_appendR)
    then have "last ?r = last ?rest"
      by (simp only: takeWhile_dropWhile_id)
    then have lr': "\<not> is_space (last ?r)"
      using lr by (rule ssubst)
    have hr: "\<not> is_space (hd ?r)"
      using rne by (rule hd_dropWhile)
    have tr: "trimmed ?r"
      unfolding trimmed_def using rne hr lr' by (intro conjI)
    have "length ?r \<le> length ?rest"
      by (rule length_dropWhile_le)
    moreover have "length ?rest \<le> length cs"
      by (rule length_dropWhile_le)
    ultimately have len: "length ?r < length t"
      by (simp add: t)
    have "split_ws ?r = tokens ?r"
      using "1.IH" len tr by (simp only:)
    then show ?thesis
      unfolding sp tok by (simp only: tokens_dropWhile)
  qed
qed

lemma trim_trimmed: "trim s \<noteq> [] \<Longrightarrow> trimmed (trim s)"
proof -
  assume ne: "trim s \<noteq> []"
  let ?d = "dropWhile is_space s"
  have r: "dropWhile is_space (rev ?d) \<noteq> []" using ne by (simp add: trim_def)
  then have "\<not> is_space (hd (dropWhile is_space (rev ?d)))"
    by (rule hd_dropWhile)
  then have l: "\<not> is_space (last (trim s))"
    using r by (simp add: trim_def last_rev)
  have dne: "?d \<noteq> []"
  proof
    assume "?d = []"
    then have "dropWhile is_space (rev ?d) = []" by (simp only: rev.simps dropWhile.simps)
    with r show False by contradiction
  qed
  then have hd: "\<not> is_space (hd ?d)" by (rule hd_dropWhile)
  have "?d = trim s @ rev (takeWhile is_space (rev ?d))"
    unfolding trim_def
    by (simp only: rev_append [symmetric] takeWhile_dropWhile_id rev_rev_ident)
  then have "hd ?d = hd (trim s)" using ne by (metis hd_append2)
  then show ?thesis using ne hd l by (simp add: trimmed_def)
qed

lemma split_ws_trim:
  "split_ws (trim s) = (if tokens s = [] then [[]] else tokens s)"
proof (cases "trim s = []")
  case True
  have "tokens s = tokens (trim s)" by (simp add: tokens_trim)
  also have "\<dots> = []" unfolding True by (rule tokens_spaces) simp
  finally have ts: "tokens s = []" .
  have "split_ws [] = [[]]" by (rule split_ws_no_space) simp
  then show ?thesis by (simp add: True ts)
next
  case False
  then have "split_ws (trim s) = tokens (trim s)"
    by (intro split_ws_trimmed trim_trimmed)
  moreover have "split_ws (trim s) \<noteq> []"
    by (subst split_ws.simps) (simp add: Let_def)
  ultimately show ?thesis by (simp add: tokens_trim)
qed

lemma filter_nth2: "P a \<Longrightarrow> P b \<Longrightarrow> P c \<Longrightarrow> filter P (a # b # c # rest) ! 2 = c"
  by simp

lemma vcard_lines_name:
  "vcard_lines c ! 2 =
     (let parts = split_ws (trim (or_empty (name c)))
      in ''N:'' @ (if length parts > 1 then last parts else [])
         @ '';'' @ (case parts of [] \<Rightarrow> [] | p # _ \<Rightarrow> p) @ '';;;'')"
  unfolding vcard_lines_def Let_def
  by (rule filter_nth2) simp_all


text \<open>
  C9, as \<open>vcardFrom\<close> has it. The name line is built from the white-space separated
  tokens of the name: with two or more tokens the last token is the last-name
  component and the first token alone is the first-name component (the tokens in
  between are in neither); a single token is the first-name component and the
  last-name component is empty; a name without tokens gives two empty components.
\<close>

theorem name_line_tokens:
  "vcard_lines c ! 2 =
     (case tokens (or_empty (name c)) of
        [] \<Rightarrow> ''N:;;;;''
      | [t] \<Rightarrow> ''N:;'' @ t @ '';;;''
      | t # ts \<Rightarrow> ''N:'' @ last ts @ '';'' @ t @ '';;;'')"
proof (cases "tokens (or_empty (name c))")
  case Nil
  then have p: "split_ws (trim (or_empty (name c))) = [[]]"
    by (simp add: split_ws_trim)
  have "vcard_lines c ! 2 = ''N:;;;;''"
    by (simp add: vcard_lines_name p)
  then show ?thesis by (simp only: Nil list.case)
next
  case (Cons t ts)
  then have p: "split_ws (trim (or_empty (name c))) = t # ts"
    by (simp add: split_ws_trim)
  have "vcard_lines c ! 2 = ''N:'' @ (if ts = [] then [] else last ts) @ '';'' @ t @ '';;;''"
    by (simp add: vcard_lines_name p)
  then show ?thesis by (cases ts) (simp_all add: Cons)
qed

text \<open>The names \<open>Ada Lovelace\<close> and \<open>Ada\<close>.\<close>

theorem name_line_tokens_witness:
  "vcard_lines (card_named ''Ada Lovelace'') ! 2 = ''N:Lovelace;Ada;;;''
   \<and> vcard_lines (card_named ''Ada'') ! 2 = ''N:;Ada;;;''"
proof -
  have "tokens ''Ada Lovelace'' = [''Ada'', ''Lovelace'']" and "tokens ''Ada'' = [''Ada'']"
    by code_simp+
  then show ?thesis
    using name_line_tokens [of "card_named ''Ada Lovelace''"]
          name_line_tokens [of "card_named ''Ada''"]
    by (simp add: card_named_def blank_card_def)
qed

text \<open>
  C9 as stated fails on a name of three words: the middle token \<open>King\<close> is not
  folded into the first-name component, it is absent from the name line.
\<close>

theorem name_line_drops_middle_tokens:
  "vcard_lines (card_named ''Ada King Lovelace'') ! 2 = ''N:Lovelace;Ada;;;''
   \<and> tokens ''Ada King Lovelace'' = [''Ada'', ''King'', ''Lovelace'']"
  by code_simp

section \<open>Escaping and folding\<close>

text \<open>
  C8. Every field of a rendered contact file should have backslash, comma and
  semicolon escaped and its line breaks written as backslash-n, and every line of
  more than 70 characters folded. \<open>vcardFrom\<close> does neither: it inserts the company
  \<open>Smith; Sons, Ltd\<close> as it is, where \<open>vEscape\<close> of the export script puts a
  backslash before the semicolon and before the comma, and it leaves the line of 86
  characters whole, where the export script folds it.
\<close>

theorem vcardFrom_leaves_reserved_characters:
  "vcard_lines smith_card =
     [''BEGIN:VCARD'', ''VERSION:3.0'', ''N:;Ada;;;'', ''FN:Ada'', ''ORG:Smith; Sons, Ltd'',
      ''URL:https://example.com/a/long/path/that/makes/the/line/longer/than/seventy/characters'',
      ''END:VCARD'']
   \<and> vEscape ''Smith; Sons, Ltd'' = ''Smith'' @ [CHR 0x5C] @ ''; Sons'' @ [CHR 0x5C] @ '', Ltd''
   \<and> length (vcard_lines smith_card ! 5) = 86
   \<and> fold_line (vcard_lines smith_card ! 5) \<noteq> vcard_lines smith_card ! 5"
  by code_simp

section \<open>Concurrent claim calls on one identifier\<close>

text \<open>The three steps of one call, run alone, are the handler.\<close>

lemma claim_as_steps:
  "run V S [(0, t), (0, t), (0, t)] (s, [Received body])
     = (snd (claim V S t s body), [Replied (fst (claim V S t s body))])"
  by (cases "claim_check V body")
     (simp_all add: step_def claim_def Let_def split: prod.splits)

lemma race_run:
  "run plain_verify plain_sign race_schedule
       ([''cardA'' \<mapsto> blank_card ''cardA'' 1], map Received two_claims)
     = ([''cardA'' \<mapsto> write_data 7 (claim_data 7 (two_claims ! 1)) (blank_card ''cardA'' 1)],
        [Replied (Inl already_claimed), Replied (Inr (''cardA'', ''owner:cardA''))])"
  by (simp add: race_schedule_def two_claims_def step_def claim_check_def claim_body_of_def
        plain_verify_def plain_sign_def updateMany_unclaimed_def claim_reply_def Let_def
        blank_card_def write_data_def claim_data_def)

lemma step_out_of_range:
  "\<not> i < length cs \<Longrightarrow> step V S (i, t) (s, cs) = (s, cs)"
  by (simp add: step_def)

lemma step_in_range:
  "i < length cs \<Longrightarrow>
     step V S (i, t) (s, cs)
       = (fst (step_call V S t s (cs ! i)), cs[i := snd (step_call V S t s (cs ! i))])"
  by (simp add: step_def split: prod.splits)

lemma claim_check_valid:
  assumes "opt_prop b b_uid = Some u" and "u \<noteq> []"
    and "valid_claim_token V u (opt_prop b b_claimToken)"
  shows "claim_check V b = None"
  using assms claim_check_None_iff [of V b] by simp

lemma step_call_Received:
  "claim_check V b = None \<Longrightarrow> step_call V S t s (Received b) = (s, Checked b)"
  by simp

lemma step_call_Checked_unclaimed:
  assumes "opt_prop b b_uid = Some u" and "s u = Some c" and "claimedAt c = None"
  shows "step_call V S t s (Checked b)
           = (s(u \<mapsto> write_data t (claim_data t b) c), Wrote b 1)"
  using assms by (simp add: updateMany_unclaimed_card)

lemma step_call_Checked_claimed:
  assumes "opt_prop b b_uid = Some u" and "s u = Some c" and "claimedAt c \<noteq> None"
  shows "step_call V S t s (Checked b) = (s, Wrote b 0)"
  using assms by (simp add: updateMany_claimed)

lemma step_call_Wrote:
  assumes "opt_prop b b_uid = Some u"
  shows "step_call V S t s (Wrote b n) = (s, Replied (claim_reply S u n))"
  using assms by simp

lemma claimed_after_write:
  "claimedAt (write_data t (claim_data t b) c) \<noteq> None"
  by (simp add: write_data_claim_fields(3) [OF claim_data_fields(3)])

lemma pending_step:
  assumes b: "opt_prop b b_uid = Some u" "u \<noteq> []"
      "valid_claim_token V u (opt_prop b b_claimToken)"
    and p: "pending b c"
    and s: "s u = Some c0" "claimedAt c0 = None"
  shows "(step_call V S t s c = (s, Checked b))
         \<or> (step_call V S t s c = (s(u \<mapsto> write_data t (claim_data t b) c0), Wrote b 1))"
proof -
  from p consider "c = Received b" | "c = Checked b" by (auto simp: pending_def)
  then show ?thesis
  proof cases
    case 1
    then show ?thesis
      using claim_check_valid [OF b] by (simp add: step_call_Received)
  next
    case 2
    then show ?thesis
      using b s step_call_Checked_unclaimed [of b u s c0 V S t] by simp
  qed
qed

lemma lost_step:
  assumes b: "opt_prop b b_uid = Some u" "u \<noteq> []"
      "valid_claim_token V u (opt_prop b b_claimToken)"
    and l: "lost b c"
    and s: "s u = Some c1" "claimedAt c1 \<noteq> None"
  shows "fst (step_call V S t s c) = s \<and> lost b (snd (step_call V S t s c))"
proof -
  from l consider "c = Received b" | "c = Checked b" | "c = Wrote b 0"
    | "c = Replied (Inl already_claimed)"
    by (auto simp: lost_def pending_def)
  then show ?thesis
  proof cases
    case 1
    then show ?thesis
      using claim_check_valid [OF b] by (simp add: lost_def pending_def)
  next
    case 2
    then show ?thesis
      using b s step_call_Checked_claimed [of b u s c1 V S t] by (simp add: lost_def)
  next
    case 3
    then show ?thesis
      using step_call_Wrote [OF b(1), of V S t s 0] by (simp add: lost_def claim_reply_def)
  next
    case 4
    then show ?thesis by (simp add: lost_def)
  qed
qed

lemma won_step:
  assumes b: "opt_prop b b_uid = Some u"
    and w: "won S u b c"
  shows "fst (step_call V S t s c) = s \<and> won S u b (snd (step_call V S t s c))"
proof -
  from w consider "c = Wrote b 1" | "c = Replied (claim_reply S u 1)"
    by (auto simp: won_def)
  then show ?thesis
  proof cases
    case 1
    then show ?thesis
      using step_call_Wrote [OF b, of V S t s 1] by (simp add: won_def)
  next
    case 2
    then show ?thesis by (simp add: won_def)
  qed
qed


lemma claim_inv_init:
  "claim_inv S u s0 c0 bs (s0, map Received bs)"
  by (simp add: claim_inv_def pending_def)

lemma claim_inv_step:
  assumes s0: "s0 u = Some c0" "claimedAt c0 = None" and u: "u \<noteq> []"
    and bs: "\<forall>b \<in> set bs. opt_prop b b_uid = Some u
                \<and> valid_claim_token V u (opt_prop b b_claimToken)"
    and inv: "claim_inv S u s0 c0 bs cfg"
  shows "claim_inv S u s0 c0 bs (step V S x cfg)"
proof -
  obtain i t where x: "x = (i, t)" by (cases x)
  obtain s cs where cfg: "cfg = (s, cs)" by (cases cfg)
  have len: "length cs = length bs"
    using inv by (simp add: claim_inv_def cfg)
  show ?thesis
  proof (cases "i < length cs")
    case False
    then show ?thesis using inv by (simp add: x cfg step_out_of_range)
  next
    case True
    let ?b = "bs ! i"
    let ?r = "step_call V S t s (cs ! i)"
    have b: "opt_prop ?b b_uid = Some u" "valid_claim_token V u (opt_prop ?b b_claimToken)"
      using bs True len by simp_all
    have st: "step V S x cfg = (fst ?r, cs[i := snd ?r])"
      using True by (simp add: x cfg step_in_range)
    from inv consider
      (A) "s = s0" "\<forall>k < length bs. pending (bs ! k) (cs ! k)"
      | (B) w t' where "w < length bs"
          "s = s0(u \<mapsto> write_data t' (claim_data t' (bs ! w)) c0)"
          "won S u (bs ! w) (cs ! w)"
          "\<forall>j < length bs. j \<noteq> w \<longrightarrow> lost (bs ! j) (cs ! j)"
      by (auto simp: claim_inv_def cfg)
    then show ?thesis
    proof cases
      case A
      have p: "pending ?b (cs ! i)" using A(2) True len by simp
      from pending_step [of ?b u V "cs ! i" s c0 S t] b u p s0 A(1)
      consider "?r = (s, Checked ?b)"
        | "?r = (s(u \<mapsto> write_data t (claim_data t ?b) c0), Wrote ?b 1)"
        by auto
      then show ?thesis
      proof cases
        case 1
        have "\<forall>k < length bs. pending (bs ! k) (cs[i := Checked ?b] ! k)"
          using A(2) len \<open>i < length cs\<close> by (auto simp: nth_list_update pending_def)
        then show ?thesis
          unfolding st 1 claim_inv_def using A(1) len by simp
      next
        case 2
        have "\<forall>j < length bs. j \<noteq> i \<longrightarrow> lost (bs ! j) (cs[i := Wrote ?b 1] ! j)"
          using A(2) len \<open>i < length cs\<close> by (auto simp: nth_list_update lost_def)
        moreover have "won S u ?b (cs[i := Wrote ?b 1] ! i)"
          using True by (simp add: won_def)
        ultimately show ?thesis
          unfolding st 2 claim_inv_def using A(1) len True
          by (intro conjI disjI2 exI [of _ i] exI [of _ t]) simp_all
      qed
    next
      case B
      let ?c1 = "write_data t' (claim_data t' (bs ! w)) c0"
      have su: "s u = Some ?c1" by (simp add: B(2))
      show ?thesis
      proof (cases "i = w")
        case True
        from won_step [of ?b u S "cs ! i" V t s] b B(3) True
        have r: "fst ?r = s" "won S u ?b (snd ?r)" by simp_all
        have "\<forall>j < length bs. j \<noteq> w \<longrightarrow> lost (bs ! j) (cs[i := snd ?r] ! j)"
          using B(4) True len \<open>i < length cs\<close> by (auto simp: nth_list_update)
        moreover have "won S u (bs ! w) (cs[i := snd ?r] ! w)"
          using r(2) True \<open>i < length cs\<close> by simp
        ultimately show ?thesis
          unfolding st claim_inv_def using B(1,2) len r(1)
          by (intro conjI disjI2 exI [of _ w] exI [of _ t']) simp_all
      next
        case False
        have l: "lost ?b (cs ! i)" using B(4) False \<open>i < length cs\<close> len by simp
        have cl: "claimedAt ?c1 \<noteq> None" by (rule claimed_after_write)
        from lost_step [of ?b u V "cs ! i" s ?c1 S t] b u l su cl
        have r: "fst ?r = s" "lost ?b (snd ?r)" by simp_all
        have "\<forall>j < length bs. j \<noteq> w \<longrightarrow> lost (bs ! j) (cs[i := snd ?r] ! j)"
          using B(4) r(2) len \<open>i < length cs\<close> by (auto simp: nth_list_update)
        moreover have "won S u (bs ! w) (cs[i := snd ?r] ! w)"
          using B(3) False by simp
        ultimately show ?thesis
          unfolding st claim_inv_def using B(1,2) len r(1)
          by (intro conjI disjI2 exI [of _ w] exI [of _ t']) simp_all
      qed
    qed
  qed
qed

lemma claim_inv_run:
  assumes "s0 u = Some c0" "claimedAt c0 = None" and "u \<noteq> []"
    and "\<forall>b \<in> set bs. opt_prop b b_uid = Some u
                \<and> valid_claim_token V u (opt_prop b b_claimToken)"
  shows "claim_inv S u s0 c0 bs cfg \<Longrightarrow> claim_inv S u s0 c0 bs (run V S sched cfg)"
proof (induction sched arbitrary: cfg)
  case Nil
  then show ?case by simp
next
  case (Cons x xs)
  from claim_inv_step [OF assms Cons.prems]
  have "claim_inv S u s0 c0 bs (step V S x cfg)" .
  then show ?case using Cons.IH by simp
qed

text \<open>Progress: a call takes at most three steps, so a schedule that names every call
  three times or more completes them all.\<close>

lemma steps_left_step_call:
  "steps_left (snd (step_call V S t s c)) \<le> steps_left c - 1"
  by (cases c) (simp_all split: option.splits prod.splits)

lemma step_length: "length (snd (step V S x cfg)) = length (snd cfg)"
  by (cases x; cases cfg) (simp add: step_def split: prod.splits)

lemma run_length: "length (snd (run V S sched cfg)) = length (snd cfg)"
  by (induction sched arbitrary: cfg) (simp_all add: step_length)

lemma steps_left_step:
  assumes "k < length (snd cfg)"
  shows "steps_left (snd (step V S x cfg) ! k)
           \<le> steps_left (snd cfg ! k) - (if fst x = k then 1 else 0)"
proof -
  obtain i t where x: "x = (i, t)" by (cases x)
  obtain s cs where cfg: "cfg = (s, cs)" by (cases cfg)
  show ?thesis
  proof (cases "i < length cs")
    case False
    then show ?thesis using assms by (auto simp: x cfg step_out_of_range)
  next
    case True
    then show ?thesis
      using assms steps_left_step_call [of V S t s "cs ! i"]
      by (auto simp: x cfg step_in_range nth_list_update)
  qed
qed

lemma steps_left_run:
  "k < length (snd cfg) \<Longrightarrow>
     steps_left (snd (run V S sched cfg) ! k)
       \<le> steps_left (snd cfg ! k) - count_list (map fst sched) k"
proof (induction sched arbitrary: cfg)
  case Nil
  then show ?case by simp
next
  case (Cons x xs)
  have "k < length (snd (step V S x cfg))"
    using Cons.prems by (simp add: step_length)
  from Cons.IH [OF this] steps_left_step [OF Cons.prems, of V S x]
  show ?case by (auto split: if_splits)
qed

lemma steps_left_bound: "steps_left c \<le> 3"
  by (cases c) simp_all

lemma steps_left_0: "steps_left c = 0 \<longleftrightarrow> is_replied c"
  by (cases c) simp_all

lemma run_completes:
  assumes "\<forall>k < length cs. 3 \<le> count_list (map fst sched) k"
  shows "list_all is_replied (snd (run V S sched (s, cs)))"
proof -
  have "\<forall>k < length cs. is_replied (snd (run V S sched (s, cs)) ! k)"
  proof (intro allI impI)
    fix k assume k: "k < length cs"
    then have "steps_left (snd (run V S sched (s, cs)) ! k)
                 \<le> steps_left (cs ! k) - count_list (map fst sched) k"
      using steps_left_run [of k "(s, cs)" V S sched] by simp
    moreover have "steps_left (cs ! k) \<le> 3" by (rule steps_left_bound)
    moreover have "3 \<le> count_list (map fst sched) k" using assms k by simp
    ultimately have "steps_left (snd (run V S sched (s, cs)) ! k) = 0" by simp
    then show "is_replied (snd (run V S sched (s, cs)) ! k)"
      by (simp add: steps_left_0)
  qed
  then show ?thesis
    using run_length [of V S sched "(s, cs)"] by (simp add: list_all_length)
qed

lemma pending_not_replied: "pending b c \<Longrightarrow> \<not> is_replied c"
  by (auto simp: pending_def)

lemma lost_replied: "lost b c \<Longrightarrow> is_replied c \<Longrightarrow> c = Replied (Inl already_claimed)"
  by (auto simp: lost_def pending_def)

lemma won_replied: "won S u b c \<Longrightarrow> is_replied c \<Longrightarrow> c = Replied (claim_reply S u 1)"
  by (auto simp: won_def)

text \<open>
  C1, as the handler has it. Let the card of \<open>u\<close> exist and be unclaimed in \<open>s0\<close>
  (identifiers are not empty: they are made by \<open>nanoid(10)\<close>), and let every one of
  the calls \<open>bs\<close> be a claim call on \<open>u\<close> with a valid claim token for it. Whatever
  the interleaving of their steps (the schedule), and however far it has run:
  the store a reader sees is \<open>s0\<close> itself or \<open>s0\<close> with the complete row written by one
  of the calls, never anything in between; a schedule that gives every call its three
  steps completes all calls; and once all calls (at least one) have replied, exactly
  one call \<open>w\<close> was answered with the identifier and a newly signed ownership token,
  every other call with \<open>already_claimed\<close>, and the stored row holds the nine text
  fields, the \<open>socials\<close> and the login e-mail that \<open>w\<close> submitted, with the
  \<open>claimedAt\<close> of its write. The claim does not write \<open>emailPublic\<close>: the row keeps
  the value it had before. The database's conditional update is one atomic step of
  the model.
\<close>

theorem concurrent_claims_one_winner:
  assumes "s0 u = Some c0" and "claimedAt c0 = None" and "u \<noteq> []"
    and "\<forall>b \<in> set bs. opt_prop b b_uid = Some u
                \<and> valid_claim_token V u (opt_prop b b_claimToken)"
    and "run V S sched (s0, map Received bs) = (s, cs)"
  shows "length cs = length bs
     \<and> (s = s0 \<or> (\<exists>w < length bs. \<exists>t. s = s0(u \<mapsto> write_data t (claim_data t (bs ! w)) c0)))
     \<and> ((\<forall>k < length bs. 3 \<le> count_list (map fst sched) k) \<longrightarrow> list_all is_replied cs)
     \<and> (bs \<noteq> [] \<and> list_all is_replied cs \<longrightarrow>
         (\<exists>w < length bs. \<exists>t c'.
            cs ! w = Replied (Inr (u, S \<lparr> pl_uid = Some u, pl_purpose = None \<rparr> (Some 90)))
            \<and> (\<forall>j < length bs. j \<noteq> w \<longrightarrow> cs ! j = Replied (Inl already_claimed))
            \<and> s = s0(u \<mapsto> c')
            \<and> text_fields c' = submitted_texts (opt_prop (bs ! w) b_profile)
            \<and> socials c' = Some (submitted_socials (opt_prop (bs ! w) b_profile))
            \<and> claimedAt c' = Some t
            \<and> claimedByEmail c' = opt_prop (bs ! w) b_emailForLogin
            \<and> uid c' = uid c0 \<and> createdAt c' = createdAt c0
            \<and> emailPublic c' = emailPublic c0))"
proof -
  have inv: "claim_inv S u s0 c0 bs (s, cs)"
    using claim_inv_run [of s0 u c0 bs V S "(s0, map Received bs)" sched]
          claim_inv_init [of S u s0 c0 bs] assms by simp
  then have len: "length cs = length bs"
    by (simp add: claim_inv_def)
  from inv consider
    (A) "s = s0" "\<forall>k < length bs. pending (bs ! k) (cs ! k)"
    | (B) w t where "w < length bs"
        "s = s0(u \<mapsto> write_data t (claim_data t (bs ! w)) c0)"
        "won S u (bs ! w) (cs ! w)"
        "\<forall>j < length bs. j \<noteq> w \<longrightarrow> lost (bs ! j) (cs ! j)"
    by (auto simp: claim_inv_def)
  note phases = this
  have visible: "s = s0 \<or> (\<exists>w < length bs. \<exists>t. s = s0(u \<mapsto> write_data t (claim_data t (bs ! w)) c0))"
    using phases by cases blast+
  have fair: "(\<forall>k < length bs. 3 \<le> count_list (map fst sched) k) \<longrightarrow> list_all is_replied cs"
    using run_completes [of "map Received bs" sched V S s0] assms(5) by simp
  have final: "\<exists>w < length bs. \<exists>t c'.
            cs ! w = Replied (Inr (u, S \<lparr> pl_uid = Some u, pl_purpose = None \<rparr> (Some 90)))
            \<and> (\<forall>j < length bs. j \<noteq> w \<longrightarrow> cs ! j = Replied (Inl already_claimed))
            \<and> s = s0(u \<mapsto> c')
            \<and> text_fields c' = submitted_texts (opt_prop (bs ! w) b_profile)
            \<and> socials c' = Some (submitted_socials (opt_prop (bs ! w) b_profile))
            \<and> claimedAt c' = Some t
            \<and> claimedByEmail c' = opt_prop (bs ! w) b_emailForLogin
            \<and> uid c' = uid c0 \<and> createdAt c' = createdAt c0
            \<and> emailPublic c' = emailPublic c0"
    if ne: "bs \<noteq> []" and fin: "list_all is_replied cs"
  proof -
    have r: "\<forall>k < length bs. is_replied (cs ! k)"
      using fin len by (simp add: list_all_length)
    from phases show ?thesis
    proof cases
      case A
      from ne have "0 < length bs" by simp
      with A(2) r have "pending (bs ! 0) (cs ! 0)" and "is_replied (cs ! 0)" by simp_all
      then show ?thesis using pending_not_replied by blast
    next
      case (B w t)
      let ?c = "write_data t (claim_data t (bs ! w)) c0"
      have "cs ! w = Replied (claim_reply S u 1)"
        using B(1,3) r by (intro won_replied) simp_all
      then have "cs ! w = Replied (Inr (u, S \<lparr> pl_uid = Some u, pl_purpose = None \<rparr> (Some 90)))"
        by (simp add: claim_reply_def)
      moreover have "\<forall>j < length bs. j \<noteq> w \<longrightarrow> cs ! j = Replied (Inl already_claimed)"
        using B(4) r lost_replied by blast
      ultimately show ?thesis
        using B(1,2)
        by (intro exI [of _ w] exI [of _ t] exI [of _ ?c] conjI)
           (simp_all add: write_data_profile write_data_frame claim_data_fields
              write_data_claim_fields(3,4) [OF claim_data_fields(3)])
    qed
  qed
  show ?thesis using len visible fair final by blast
qed

text \<open>Two calls race for card A; the second one writes first and wins.\<close>

theorem concurrent_claims_one_winner_witness:
  "snd (run plain_verify plain_sign race_schedule
          ([''cardA'' \<mapsto> blank_card ''cardA'' 1], map Received two_claims))
     = [Replied (Inl already_claimed), Replied (Inr (''cardA'', ''owner:cardA''))]
   \<and> (\<exists>t c'. fst (run plain_verify plain_sign race_schedule
                    ([''cardA'' \<mapsto> blank_card ''cardA'' 1], map Received two_claims))
                = [''cardA'' \<mapsto> c']
              \<and> text_fields c' = submitted_texts (Some grace_profile)
              \<and> claimedAt c' = Some t \<and> uid c' = ''cardA'')"
proof -
  let ?init = "[''cardA'' \<mapsto> blank_card ''cardA'' 1]"
  let ?final = "[''cardA'' \<mapsto> write_data 7 (claim_data 7 (two_claims ! 1)) (blank_card ''cardA'' 1)]"
  let ?cs = "[Replied (Inl already_claimed), Replied (Inr (''cardA'', ''owner:cardA''))]"
  have card: "?init ''cardA'' = Some (blank_card ''cardA'' 1)"
    and unclaimed: "claimedAt (blank_card ''cardA'' 1) = None"
    and u: "''cardA'' \<noteq> []"
    by (simp_all add: blank_card_def)
  have valid: "\<forall>b \<in> set two_claims. opt_prop b b_uid = Some ''cardA''
                 \<and> valid_claim_token plain_verify ''cardA'' (opt_prop b b_claimToken)"
    by (simp add: two_claims_def claim_body_of_def valid_claim_token_def plain_verify_def)
  have fin: "two_claims \<noteq> [] \<and> list_all is_replied ?cs"
    by (simp add: two_claims_def)
  from concurrent_claims_one_winner [OF card unclaimed u valid race_run] fin
  obtain w t c' where w: "w < length two_claims"
    and r: "?cs ! w = Replied (Inr (''cardA'',
              plain_sign \<lparr> pl_uid = Some ''cardA'', pl_purpose = None \<rparr> (Some 90)))"
    and s: "?final = ?init(''cardA'' \<mapsto> c')"
    and p: "text_fields c' = submitted_texts (opt_prop (two_claims ! w) b_profile)"
    and c: "claimedAt c' = Some t" "uid c' = uid (blank_card ''cardA'' 1)"
    by blast
  from w r have "w = 1"
    by (cases w) (simp_all add: two_claims_def)
  then have tf: "text_fields c' = submitted_texts (Some grace_profile)"
    using p by (simp add: two_claims_def claim_body_of_def)
  have st: "?final = [''cardA'' \<mapsto> c']" using s by simp
  have id: "uid c' = ''cardA''" using c(2) by (simp add: blank_card_def)
  show ?thesis
    unfolding race_run fst_conv snd_conv
    using st tf c(1) id by (intro conjI exI [of _ t] exI [of _ c']) simp_all
qed

text \<open>
  C1 as stated fails on \<open>emailPublic\<close>: on a card whose \<open>emailPublic\<close> was filled in
  before, two calls race, the second wins with a profile that carries an
  \<open>emailPublic\<close> of its own, and when both have replied the stored \<open>emailPublic\<close> is
  still the previous one, which no caller submitted. The stored profile is not exactly
  the winner's.
\<close>

theorem race_keeps_emailPublic:
  "snd (run plain_verify plain_sign race_schedule
          ([''cardA'' \<mapsto> prefilled_cardA], map Received two_claims_pub))
     = [Replied (Inl already_claimed), Replied (Inr (''cardA'', ''owner:cardA''))]
   \<and> opt_prop (two_claims_pub ! 1) b_profile = Some grace_profile_pub
   \<and> p_other grace_profile_pub = [(''emailPublic'', ''grace@example.com'')]
   \<and> map_option name
        (fst (run plain_verify plain_sign race_schedule
               ([''cardA'' \<mapsto> prefilled_cardA], map Received two_claims_pub)) ''cardA'')
       = Some (Some ''Grace Hopper'')
   \<and> map_option emailPublic
        (fst (run plain_verify plain_sign race_schedule
               ([''cardA'' \<mapsto> prefilled_cardA], map Received two_claims_pub)) ''cardA'')
       = Some (Some ''pub@example.com'')"
  by (simp add: race_schedule_def two_claims_pub_def step_def claim_check_def claim_body_of_def
        plain_verify_def plain_sign_def updateMany_unclaimed_def claim_reply_def Let_def
        blank_card_def write_data_def claim_data_def prefilled_cardA_def grace_profile_pub_def
        grace_profile_def empty_profile_def)

end
